theory Spec2Isabelle
  imports Main "HOL-Library.Sublist"
begin

section \<open>Data model\<close>

text \<open>
  A shallow embedding of \<^verbatim>\<open>src/main.py\<close> (class \<^verbatim>\<open>DepositTracker\<close>).

  A transaction is the dictionary the RPC client returns for an entry of
  \<^verbatim>\<open>block['transactions']\<close>; only the keys the tracker reads are kept.
  \<^item> \<^verbatim>\<open>tx['to']\<close> is \<^verbatim>\<open>None\<close> for a contract creation, a string otherwise;
  \<^item> \<^verbatim>\<open>tx['gas']\<close> and \<^verbatim>\<open>tx['gasPrice']\<close> are Python integers (unbounded);
  \<^item> \<open>tx_hash\<close> stands for the string \<^verbatim>\<open>tx['hash'].hex()\<close>, the only way the hash is read;
  \<^item> \<^verbatim>\<open>tx['input']\<close> is the call data as the client hands it over, a string of
    characters that starts with the two characters \<^verbatim>\<open>0x\<close>.
\<close>

record tx =
  tx_to :: "string option"
  tx_gas :: int
  tx_gasPrice :: int
  tx_hash :: string
  tx_input :: string

record block =
  number :: int
  timestamp :: int
  transactions :: "tx list"

text \<open>The dictionary built in \<^verbatim>\<open>process_deposit\<close>, which is also a row of table \<^verbatim>\<open>deposit\<close>.\<close>

record deposit =
  blockNumber :: int
  blockTimestamp :: int
  fee :: int
  hash :: string
  pubkey :: string

text \<open>
  Exceptions the tracker can meet: any failure of an RPC call (\<^verbatim>\<open>w3.eth.get_block\<close>) and any
  failure of the database (in \<^verbatim>\<open>cur.execute\<close> or in \<^verbatim>\<open>con.commit\<close>). The
  \<^verbatim>\<open>RequestException\<close> of the HTTP call never leaves \<^verbatim>\<open>send_telegram_notification\<close>,
  so it is an outcome of the call and not an error value.
\<close>

datatype error = RpcError | SqliteError

text \<open>
  The outside world during one pass of the polling loop: what the node answers to
  \<^verbatim>\<open>get_block('latest')['number']\<close> and to \<^verbatim>\<open>get_block(n, full_transactions=True)\<close>, whether
  the \<^verbatim>\<open>INSERT\<close> of a row (\<^verbatim>\<open>cur.execute\<close>) succeeds, whether the \<^verbatim>\<open>con.commit()\<close> that
  follows it succeeds, and whether the HTTP request for a deposit succeeds.
\<close>

record world =
  latest_number :: "error + int"
  block_at :: "int \<Rightarrow> error + block"
  execute_ok :: "deposit \<Rightarrow> bool"
  commit_ok :: "deposit \<Rightarrow> bool"
  post_ok :: "deposit \<Rightarrow> bool"

text \<open>Persisting a record succeeds when both the insertion and its commit do.\<close>

definition insert_ok :: "world \<Rightarrow> deposit \<Rightarrow> bool" where
  "insert_ok w d = (execute_ok w d \<and> commit_ok w d)"

text \<open>
  The state the program changes: the attribute \<^verbatim>\<open>last_processed_block\<close>; the committed rows
  of table \<^verbatim>\<open>deposit\<close> in insertion order (what \<^verbatim>\<open>SELECT * FROM deposit\<close> of \<^verbatim>\<open>read_db.py\<close>
  returns); the rows inserted through the module-level connection whose commit has not yet
  succeeded, which stay in its open transaction; and the notification requests made, each
  with whether it was delivered. Two more lists record what the loops did: the heights
  asked of the node with full transactions, and the transactions on which the filter
  condition was evaluated.
\<close>

record state =
  last_processed_block :: int
  db :: "deposit list"
  pending :: "deposit list"
  alerts :: "(deposit \<times> bool) list"
  fetched :: "int list"
  examined :: "tx list"

section \<open>Operations\<close>

text \<open>
  \<^verbatim>\<open>str.lower()\<close> on the ASCII range: the letters \<^verbatim>\<open>A\<close> to \<^verbatim>\<open>Z\<close> (codes 65 to 90) move to
  \<^verbatim>\<open>a\<close> to \<^verbatim>\<open>z\<close>, every other character stays. Addresses are ASCII hexadecimal strings.
\<close>

definition lower_char :: "char \<Rightarrow> char" where
  "lower_char c =
     (let n = (of_char c :: nat) in if 65 \<le> n \<and> n \<le> 90 then char_of (n + 32) else c)"

definition lower :: "string \<Rightarrow> string" where
  "lower s = map lower_char s"

text \<open>
  The condition of line 104, with the configured \<^verbatim>\<open>DEPOSIT_CONTRACT_ADDRESS\<close> as a parameter
  (the environment variable is taken to be set):
  \<^verbatim>\<open>tx['to'] and tx['to'].lower() == DEPOSIT_CONTRACT_ADDRESS.lower()\<close>.
  \<^verbatim>\<open>None\<close> and the empty string are both false in Python.
\<close>

definition is_deposit_tx :: "string \<Rightarrow> tx \<Rightarrow> bool" where
  "is_deposit_tx addr t =
     (case tx_to t of
        None \<Rightarrow> False
      | Some a \<Rightarrow> a \<noteq> [] \<and> lower a = lower addr)"

text \<open>The slice \<^verbatim>\<open>s[i:j]\<close> of a string for \<open>0 \<le> i \<le> j\<close>: it never raises.\<close>

definition slice :: "nat \<Rightarrow> nat \<Rightarrow> 'a list \<Rightarrow> 'a list" where
  "slice i j s = take (j - i) (drop i s)"

text \<open>The dictionary literal of \<^verbatim>\<open>process_deposit\<close> (lines 114 to 120).\<close>

definition build_deposit :: "tx \<Rightarrow> block \<Rightarrow> deposit" where
  "build_deposit t b =
     \<lparr> blockNumber = number b,
       blockTimestamp = timestamp b,
       fee = tx_gas t * tx_gasPrice t,
       hash = tx_hash t,
       pubkey = slice 2 98 (tx_input t) \<rparr>"

text \<open>
  \<^verbatim>\<open>save_deposit\<close>: \<^verbatim>\<open>cur.execute\<close> then \<^verbatim>\<open>con.commit()\<close>. When the \<^verbatim>\<open>INSERT\<close> raises, no
  row is added. When it succeeds the row joins the open transaction of the connection; a
  commit that succeeds writes every row of the transaction to the table, and a commit that
  raises leaves them all in the transaction, which nothing rolls back.
\<close>

definition save_deposit :: "world \<Rightarrow> deposit \<Rightarrow> state \<Rightarrow> error option \<times> state" where
  "save_deposit w d s =
     (if \<not> execute_ok w d then (Some SqliteError, s)
      else if \<not> commit_ok w d then (Some SqliteError, s\<lparr>pending := pending s @ [d]\<rparr>)
      else (None, s\<lparr>db := db s @ pending s @ [d], pending := []\<rparr>))"

text \<open>
  \<^verbatim>\<open>send_telegram_notification\<close>: one HTTP request; a \<^verbatim>\<open>RequestException\<close> is caught and
  logged, so the function always returns normally. The formatting of the message is taken
  to be total.
\<close>

definition send_telegram_notification :: "world \<Rightarrow> deposit \<Rightarrow> state \<Rightarrow> state" where
  "send_telegram_notification w d s = s\<lparr>alerts := alerts s @ [(d, post_ok w d)]\<rparr>"

definition send_alert :: "world \<Rightarrow> deposit \<Rightarrow> state \<Rightarrow> state" where
  "send_alert w d s = send_telegram_notification w d s"

text \<open>\<^verbatim>\<open>process_deposit\<close>: an exception of \<^verbatim>\<open>save_deposit\<close> leaves before \<^verbatim>\<open>send_alert\<close>.\<close>

definition process_deposit :: "world \<Rightarrow> tx \<Rightarrow> block \<Rightarrow> state \<Rightarrow> error option \<times> state" where
  "process_deposit w t b s =
     (let d = build_deposit t b in
      case save_deposit w d s of
        (Some e, s') \<Rightarrow> (Some e, s')
      | (None, s') \<Rightarrow> (None, send_alert w d s'))"

text \<open>The inner loop of \<^verbatim>\<open>process_new_blocks\<close>, over \<^verbatim>\<open>block['transactions']\<close>.\<close>

fun process_transactions ::
  "world \<Rightarrow> string \<Rightarrow> block \<Rightarrow> tx list \<Rightarrow> state \<Rightarrow> error option \<times> state" where
  "process_transactions w addr b [] s = (None, s)"
| "process_transactions w addr b (t # ts) s =
     (let s1 = s\<lparr>examined := examined s @ [t]\<rparr> in
      if is_deposit_tx addr t then
        (case process_deposit w t b s1 of
           (Some e, s2) \<Rightarrow> (Some e, s2)
         | (None, s2) \<Rightarrow> process_transactions w addr b ts s2)
      else process_transactions w addr b ts s1)"

text \<open>The outer loop of \<^verbatim>\<open>process_new_blocks\<close>, over the heights of the range.\<close>

fun process_heights ::
  "world \<Rightarrow> string \<Rightarrow> int list \<Rightarrow> state \<Rightarrow> error option \<times> state" where
  "process_heights w addr [] s = (None, s)"
| "process_heights w addr (n # ns) s =
     (let s1 = s\<lparr>fetched := fetched s @ [n]\<rparr> in
      case block_at w n of
        Inl e \<Rightarrow> (Some e, s1)
      | Inr b \<Rightarrow>
          (case process_transactions w addr b (transactions b) s1 of
             (Some e, s2) \<Rightarrow> (Some e, s2)
           | (None, s2) \<Rightarrow> process_heights w addr ns s2))"

text \<open>\<^verbatim>\<open>range(start_block, end_block + 1)\<close> is the list \<open>[start_block..end_block]\<close>.\<close>

definition process_new_blocks ::
  "world \<Rightarrow> string \<Rightarrow> int \<Rightarrow> int \<Rightarrow> state \<Rightarrow> error option \<times> state" where
  "process_new_blocks w addr start_block end_block s =
     process_heights w addr [start_block..end_block] s"

text \<open>\<^verbatim>\<open>get_last_processed_block\<close> and the constructor, which stores its result.\<close>

definition get_last_processed_block :: "world \<Rightarrow> error + int" where
  "get_last_processed_block w =
     (case latest_number w of Inl e \<Rightarrow> Inl e | Inr n \<Rightarrow> Inr (n - 1000))"

definition init :: "world \<Rightarrow> state \<Rightarrow> error + state" where
  "init w s =
     (case get_last_processed_block w of
        Inl e \<Rightarrow> Inl e
      | Inr n \<Rightarrow> Inr (s\<lparr>last_processed_block := n\<rparr>))"

text \<open>
  The body of the \<^verbatim>\<open>try\<close> of \<^verbatim>\<open>track_deposits\<close>: the exception it ends with, if any, and
  the state it leaves.
\<close>

definition track_body :: "world \<Rightarrow> string \<Rightarrow> state \<Rightarrow> error option \<times> state" where
  "track_body w addr s =
     (case latest_number w of
        Inl e \<Rightarrow> (Some e, s)
      | Inr current_block \<Rightarrow>
          if current_block > last_processed_block s then
            (case process_new_blocks w addr (last_processed_block s + 1) current_block s of
               (Some e, s') \<Rightarrow> (Some e, s')
             | (None, s') \<Rightarrow> (None, s'\<lparr>last_processed_block := current_block\<rparr>))
          else (None, s))"

text \<open>
  One pass of \<^verbatim>\<open>while True\<close>: the \<^verbatim>\<open>except\<close> branch logs the exception and goes on with
  the state as the \<^verbatim>\<open>try\<close> left it. The pauses are not modelled.
\<close>

definition track_iteration :: "world \<Rightarrow> string \<Rightarrow> state \<Rightarrow> state" where
  "track_iteration w addr s = snd (track_body w addr s)"

text \<open>
  \<^verbatim>\<open>track_deposits\<close> never returns. The function below runs its first passes, one for
  each world of the list, and gives the state after the last of them.
\<close>

fun track_deposits :: "string \<Rightarrow> world list \<Rightarrow> state \<Rightarrow> state" where
  "track_deposits addr [] s = s"
| "track_deposits addr (w # ws) s = track_deposits addr ws (track_iteration w addr s)"

section \<open>What a pass should have done\<close>

text \<open>
  Descriptions used to state the properties: the transactions of the block at a height,
  the records of the matching transactions of a block in the order of the block, and the
  notification requests that go with a list of records.
\<close>

definition txs_at :: "world \<Rightarrow> int \<Rightarrow> tx list" where
  "txs_at w n = (case block_at w n of Inl e \<Rightarrow> [] | Inr b \<Rightarrow> transactions b)"

definition deposits_of :: "string \<Rightarrow> block \<Rightarrow> deposit list" where
  "deposits_of addr b = map (\<lambda>t. build_deposit t b) (filter (is_deposit_tx addr) (transactions b))"

definition deposits_at :: "world \<Rightarrow> string \<Rightarrow> int \<Rightarrow> deposit list" where
  "deposits_at w addr n = (case block_at w n of Inl e \<Rightarrow> [] | Inr b \<Rightarrow> deposits_of addr b)"

definition notices :: "world \<Rightarrow> deposit list \<Rightarrow> (deposit \<times> bool) list" where
  "notices w ds = map (\<lambda>d. (d, post_ok w d)) ds"

text \<open>
  Two characters are the same letter up to case when they are equal, or one is a capital
  ASCII letter and the other the small letter 32 codes above it. Two strings are equal
  under case-insensitive comparison when they have the same length and their characters
  are pairwise the same up to case. This is stated from the words of the specification and
  not from the code, which compares the lower-cased strings.
\<close>

definition is_upper :: "char \<Rightarrow> bool" where
  "is_upper c = (65 \<le> (of_char c :: nat) \<and> (of_char c :: nat) \<le> 90)"

definition same_letter :: "char \<Rightarrow> char \<Rightarrow> bool" where
  "same_letter c d =
     (c = d \<or> (is_upper c \<and> (of_char d :: nat) = of_char c + 32)
            \<or> (is_upper d \<and> (of_char c :: nat) = of_char d + 32))"

definition equal_ignoring_case :: "string \<Rightarrow> string \<Rightarrow> bool" where
  "equal_ignoring_case a b = list_all2 same_letter a b"

text \<open>
  The specification's reading of the public key, stated from its words and not from the
  code: the call data is the prefix \<^verbatim>\<open>0x\<close>, the 8 hexadecimal digits of the 4-byte method
  selector, and the arguments; the key is the 96 digits (48 bytes) right after the selector.
\<close>

definition pubkey_after_selector :: "string \<Rightarrow> string" where
  "pubkey_after_selector inp = slice 10 106 inp"

section \<open>A sample chain\<close>

text \<open>
  Concrete data on which the definitions are evaluated. The contract address is written
  in mixed case; \<open>tx_a\<close> and \<open>tx_b\<close> are sent to it, written in other cases. \<open>tx_a\<close>
  carries the selector \<^verbatim>\<open>22895118\<close> and 96 further digits, \<open>tx_b\<close> a call data of six
  characters; \<open>tx_create\<close> creates a contract and \<open>tx_other\<close> goes elsewhere.
\<close>

definition deposit_contract :: string where
  "deposit_contract = ''0x00000000219ab540356cBB839Cbe05303d7705Fa''"

definition tx_a :: tx where
  "tx_a = \<lparr> tx_to = Some ''0x00000000219AB540356CBB839CBE05303D7705FA'',
            tx_gas = 21000, tx_gasPrice = 50, tx_hash = ''0xaaa'',
            tx_input = ''0x22895118'' @ replicate 96 (CHR ''c'') \<rparr>"

definition tx_b :: tx where
  "tx_b = \<lparr> tx_to = Some ''0x00000000219ab540356cbb839cbe05303d7705fa'',
            tx_gas = 21000, tx_gasPrice = 10, tx_hash = ''0xabc'',
            tx_input = ''0x1234'' \<rparr>"

definition tx_create :: tx where
  "tx_create = \<lparr> tx_to = None, tx_gas = 90000, tx_gasPrice = 7, tx_hash = ''0xccc'',
            tx_input = ''0x6080'' \<rparr>"

definition tx_other :: tx where
  "tx_other = \<lparr> tx_to = Some ''0x000000000000000000000000000000000000dEaD'',
            tx_gas = 21000, tx_gasPrice = 9, tx_hash = ''0xddd'', tx_input = ''0x'' \<rparr>"

text \<open>Blocks 101 and 103 hold transactions; every other block is empty.\<close>

definition chain :: "int \<Rightarrow> block" where
  "chain n =
     \<lparr> number = n, timestamp = 1700000000 + 12 * n,
       transactions =
         (if n = 101 then [tx_a] else if n = 103 then [tx_create, tx_b, tx_other] else []) \<rparr>"

text \<open>
  Five worlds at height 105: one where the node and the database answer and every HTTP
  request fails, one where the node is unreachable, one where block 104 cannot be fetched,
  one where every insertion fails, and one where every commit fails.
\<close>

definition world_ok :: world where
  "world_ok = \<lparr> latest_number = Inr 105, block_at = (\<lambda>n. Inr (chain n)),
       execute_ok = (\<lambda>d. True), commit_ok = (\<lambda>d. True), post_ok = (\<lambda>d. False) \<rparr>"

definition world_rpc_down :: world where
  "world_rpc_down = \<lparr> latest_number = Inl RpcError, block_at = (\<lambda>n. Inl RpcError),
       execute_ok = (\<lambda>d. True), commit_ok = (\<lambda>d. True), post_ok = (\<lambda>d. True) \<rparr>"

definition world_block_missing :: world where
  "world_block_missing = \<lparr> latest_number = Inr 105,
       block_at = (\<lambda>n. if n = 104 then Inl RpcError else Inr (chain n)),
       execute_ok = (\<lambda>d. True), commit_ok = (\<lambda>d. True), post_ok = (\<lambda>d. True) \<rparr>"


definition world_commit_down :: world where
  "world_commit_down = \<lparr> latest_number = Inr 105, block_at = (\<lambda>n. Inr (chain n)),
       execute_ok = (\<lambda>d. True), commit_ok = (\<lambda>d. False), post_ok = (\<lambda>d. True) \<rparr>"

definition state0 :: state where
  "state0 = \<lparr> last_processed_block = 99, db = [], pending = [], alerts = [],
       fetched = [], examined = [] \<rparr>"


section \<open>The loops\<close>

lemma notices_append: "notices w (xs @ ys) = notices w xs @ notices w ys"
  by (simp add: notices_def)

lemma process_deposit_eq:
  "process_deposit w t b s =
     (if \<not> execute_ok w (build_deposit t b) then (Some SqliteError, s)
      else if \<not> commit_ok w (build_deposit t b)
      then (Some SqliteError, s\<lparr>pending := pending s @ [build_deposit t b]\<rparr>)
      else (None, s\<lparr>db := db s @ pending s @ [build_deposit t b], pending := [],
                     alerts := alerts s @ notices w [build_deposit t b]\<rparr>))"
  by (simp add: process_deposit_def save_deposit_def send_alert_def
      send_telegram_notification_def Let_def notices_def)

lemma process_deposit_ok:
  "insert_ok w (build_deposit t b) \<Longrightarrow>
   process_deposit w t b s =
     (None, s\<lparr>db := db s @ pending s @ [build_deposit t b], pending := [],
              alerts := alerts s @ notices w [build_deposit t b]\<rparr>)"
  by (simp add: process_deposit_eq insert_ok_def)

lemma process_deposit_failed:
  "\<not> insert_ok w (build_deposit t b) \<Longrightarrow>
   process_deposit w t b s =
     (Some SqliteError,
      if execute_ok w (build_deposit t b) then s\<lparr>pending := pending s @ [build_deposit t b]\<rparr>
      else s)"
  by (simp add: process_deposit_eq insert_ok_def)

text \<open>
  What the inner loop can change, however it ends: it appends to the transactions examined
  and to the committed rows, replaces the pending rows, and requests notifications only for
  records whose insertion and commit succeeded.
\<close>

lemma process_transactions_frame:
  "\<exists>k cs ps ds. snd (process_transactions w addr b ts s) =
       s\<lparr>examined := examined s @ take k ts, db := db s @ cs, pending := ps,
         alerts := alerts s @ notices w ds\<rparr>
     \<and> (\<forall>d \<in> set ds. insert_ok w d)"
proof (induction ts arbitrary: s)
  case Nil
  have "snd (process_transactions w addr b [] s) =
     s\<lparr>examined := examined s @ take 0 [], db := db s @ [], pending := pending s,
       alerts := alerts s @ notices w []\<rparr>"
    by (simp add: notices_def)
  moreover have "\<forall>d \<in> set []. insert_ok w d" by simp
  ultimately show ?case by blast
next
  case (Cons t ts)
  let ?s1 = "s\<lparr>examined := examined s @ [t]\<rparr>"
  let ?d = "build_deposit t b"
  show ?case
  proof (cases "is_deposit_tx addr t")
    case False
    from Cons.IH [of ?s1] obtain k cs ps ds where
      "snd (process_transactions w addr b ts ?s1) =
         ?s1\<lparr>examined := examined ?s1 @ take k ts, db := db ?s1 @ cs, pending := ps,
              alerts := alerts ?s1 @ notices w ds\<rparr>"
      and ok: "\<forall>d \<in> set ds. insert_ok w d" by blast
    then have "snd (process_transactions w addr b (t # ts) s) =
         s\<lparr>examined := examined s @ take (Suc k) (t # ts), db := db s @ cs, pending := ps,
              alerts := alerts s @ notices w ds\<rparr>"
      using False by (simp add: Let_def)
    with ok show ?thesis by blast
  next
    case True
    show ?thesis
    proof (cases "insert_ok w ?d")
      case False
      let ?ps = "if execute_ok w ?d then pending s @ [?d] else pending s"
      have "snd (process_transactions w addr b (t # ts) s) =
         s\<lparr>examined := examined s @ take (Suc 0) (t # ts), db := db s @ [], pending := ?ps,
              alerts := alerts s @ notices w []\<rparr>"
        using True False by (simp add: Let_def process_deposit_failed notices_def)
      moreover have "\<forall>d \<in> set []. insert_ok w d" by simp
      ultimately show ?thesis by blast
    next
      case ok: True
      let ?s2 = "?s1\<lparr>db := db ?s1 @ pending ?s1 @ [?d], pending := [],
          alerts := alerts ?s1 @ notices w [?d]\<rparr>"
      from Cons.IH [of ?s2] obtain k cs ps ds where
        "snd (process_transactions w addr b ts ?s2) =
         ?s2\<lparr>examined := examined ?s2 @ take k ts, db := db ?s2 @ cs, pending := ps,
              alerts := alerts ?s2 @ notices w ds\<rparr>"
        and rest: "\<forall>d \<in> set ds. insert_ok w d" by blast
      then have "snd (process_transactions w addr b (t # ts) s) =
         s\<lparr>examined := examined s @ take (Suc k) (t # ts),
           db := db s @ (pending s @ ?d # cs), pending := ps,
           alerts := alerts s @ notices w (?d # ds)\<rparr>"
        using True ok by (simp add: Let_def process_deposit_ok notices_def)
      moreover have "\<forall>d \<in> set (?d # ds). insert_ok w d" using ok rest by simp
      ultimately show ?thesis by blast
    qed
  qed
qed

text \<open>The inner loop when it ends without an exception.\<close>

lemma process_transactions_ok:
  assumes "fst (process_transactions w addr b ts s) = None"
  shows "examined (snd (process_transactions w addr b ts s)) = examined s @ ts"
    and "alerts (snd (process_transactions w addr b ts s)) =
      alerts s @ notices w (map (\<lambda>t. build_deposit t b) (filter (is_deposit_tx addr) ts))"
    and "db (snd (process_transactions w addr b ts s)) @ pending (snd (process_transactions w addr b ts s)) =
      db s @ pending s @ map (\<lambda>t. build_deposit t b) (filter (is_deposit_tx addr) ts)"
    and "pending s = [] \<Longrightarrow> pending (snd (process_transactions w addr b ts s)) = []"
    and "\<forall>t \<in> set ts. is_deposit_tx addr t \<longrightarrow> insert_ok w (build_deposit t b)"
  using assms
proof (induction ts arbitrary: s)
  case Nil
  {
    case 1 show ?case by simp
  next
    case 2 show ?case by (simp add: notices_def)
  next
    case 3 show ?case by simp
  next
    case 4 then show ?case by simp
  next
    case 5 show ?case by simp
  }
next
  case (Cons t ts)
  let ?d = "build_deposit t b"
  let ?s1 = "s\<lparr>examined := examined s @ [t]\<rparr>"
  let ?s2 = "?s1\<lparr>db := db ?s1 @ pending ?s1 @ [?d], pending := [],
      alerts := alerts ?s1 @ notices w [?d]\<rparr>"
  {
    case 1
    then show ?case using Cons.IH(1)
      by (cases "is_deposit_tx addr t"; cases "insert_ok w ?d")
         (simp_all add: Let_def process_deposit_ok process_deposit_failed)
  next
    case 2
    then show ?case using Cons.IH(2)
      by (cases "is_deposit_tx addr t"; cases "insert_ok w ?d")
         (simp_all add: Let_def process_deposit_ok process_deposit_failed notices_def)
  next
    case 3
    then show ?case using Cons.IH(3)
      by (cases "is_deposit_tx addr t"; cases "insert_ok w ?d")
         (simp_all add: Let_def process_deposit_ok process_deposit_failed)
  next
    case 4
    then show ?case using Cons.IH(4)
      by (cases "is_deposit_tx addr t"; cases "insert_ok w ?d")
         (simp_all add: Let_def process_deposit_ok process_deposit_failed)
  next
    case 5
    then show ?case using Cons.IH(5)
      by (cases "is_deposit_tx addr t"; cases "insert_ok w ?d")
         (simp_all add: Let_def process_deposit_ok process_deposit_failed)
  }
qed

lemma process_transactions_succeeds:
  "\<forall>t \<in> set ts. is_deposit_tx addr t \<longrightarrow> insert_ok w (build_deposit t b) \<Longrightarrow>
   fst (process_transactions w addr b ts s) = None"
  by (induction ts arbitrary: s) (auto simp add: process_deposit_ok Let_def)



text \<open>What the outer loop can change, however it ends.\<close>

lemma process_heights_frame:
  "\<exists>k xs cs ps ds. snd (process_heights w addr ns s) =
       s\<lparr>fetched := fetched s @ take k ns, examined := examined s @ xs,
         db := db s @ cs, pending := ps, alerts := alerts s @ notices w ds\<rparr>
     \<and> (\<forall>d \<in> set ds. insert_ok w d)"
proof (induction ns arbitrary: s)
  case Nil
  have "snd (process_heights w addr [] s) =
     s\<lparr>fetched := fetched s @ take 0 [], examined := examined s @ [],
       db := db s @ [], pending := pending s, alerts := alerts s @ notices w []\<rparr>"
    by (simp add: notices_def)
  moreover have "\<forall>d \<in> set []. insert_ok w d" by simp
  ultimately show ?case by blast
next
  case (Cons n ns)
  let ?s1 = "s\<lparr>fetched := fetched s @ [n]\<rparr>"
  show ?case
  proof (cases "block_at w n")
    case (Inl e)
    have "snd (process_heights w addr (n # ns) s) =
       s\<lparr>fetched := fetched s @ take (Suc 0) (n # ns), examined := examined s @ [],
         db := db s @ [], pending := pending s, alerts := alerts s @ notices w []\<rparr>"
      using Inl by (simp add: notices_def)
    moreover have "\<forall>d \<in> set []. insert_ok w d" by simp
    ultimately show ?thesis by blast
  next
    case (Inr b)
    let ?s2 = "snd (process_transactions w addr b (transactions b) ?s1)"
    obtain k1 cs1 ps1 ds1 where inner: "?s2 =
       ?s1\<lparr>examined := examined ?s1 @ take k1 (transactions b), db := db ?s1 @ cs1,
            pending := ps1, alerts := alerts ?s1 @ notices w ds1\<rparr>"
      and ok1: "\<forall>d \<in> set ds1. insert_ok w d"
      using process_transactions_frame [of w addr b "transactions b" ?s1] by blast
    show ?thesis
    proof (cases "fst (process_transactions w addr b (transactions b) ?s1)")
      case (Some e)
      have "snd (process_heights w addr (n # ns) s) = ?s2"
        using Inr Some by (simp add: split_beta)
      then have "snd (process_heights w addr (n # ns) s) =
         s\<lparr>fetched := fetched s @ take (Suc 0) (n # ns),
           examined := examined s @ take k1 (transactions b),
           db := db s @ cs1, pending := ps1, alerts := alerts s @ notices w ds1\<rparr>"
        using inner by simp
      with ok1 show ?thesis by blast
    next
      case None
      from Cons.IH [of ?s2] obtain k xs cs ps ds where rest:
        "snd (process_heights w addr ns ?s2) =
           ?s2\<lparr>fetched := fetched ?s2 @ take k ns, examined := examined ?s2 @ xs,
                db := db ?s2 @ cs, pending := ps, alerts := alerts ?s2 @ notices w ds\<rparr>"
        and ok2: "\<forall>d \<in> set ds. insert_ok w d" by blast
      have "snd (process_heights w addr (n # ns) s) = snd (process_heights w addr ns ?s2)"
        using Inr None by (simp add: split_beta)
      then have "snd (process_heights w addr (n # ns) s) =
         s\<lparr>fetched := fetched s @ take (Suc k) (n # ns),
           examined := examined s @ (take k1 (transactions b) @ xs),
           db := db s @ (cs1 @ cs), pending := ps,
           alerts := alerts s @ notices w (ds1 @ ds)\<rparr>"
        using rest inner by (simp add: notices_append)
      moreover have "\<forall>d \<in> set (ds1 @ ds). insert_ok w d" using ok1 ok2 by auto
      ultimately show ?thesis by blast
    qed
  qed
qed

text \<open>The outer loop when it ends without an exception.\<close>

lemma process_heights_ok_all:
  "fst (process_heights w addr ns s) = None \<Longrightarrow>
   (\<forall>n \<in> set ns. isl (block_at w n) = False)
   \<and> fetched (snd (process_heights w addr ns s)) = fetched s @ ns
   \<and> examined (snd (process_heights w addr ns s)) = examined s @ concat (map (txs_at w) ns)
   \<and> alerts (snd (process_heights w addr ns s)) =
       alerts s @ notices w (concat (map (deposits_at w addr) ns))
   \<and> db (snd (process_heights w addr ns s)) @ pending (snd (process_heights w addr ns s)) =
       db s @ pending s @ concat (map (deposits_at w addr) ns)
   \<and> (pending s = [] \<longrightarrow> pending (snd (process_heights w addr ns s)) = [])"
proof (induction ns arbitrary: s)
  case Nil
  show ?case by (simp add: notices_def)
next
  case (Cons n ns)
  let ?s1 = "s\<lparr>fetched := fetched s @ [n]\<rparr>"
  from Cons.prems obtain b where b: "block_at w n = Inr b"
    by (cases "block_at w n") simp_all
  let ?r = "process_transactions w addr b (transactions b) ?s1"
  let ?s2 = "snd ?r"
  from Cons.prems b have ok1: "fst ?r = None"
    by (cases "fst ?r") (simp_all add: split_beta)
  then have eq: "process_heights w addr (n # ns) s = process_heights w addr ns ?s2"
    using b by (simp add: split_beta)
  from Cons.prems have ok2: "fst (process_heights w addr ns ?s2) = None"
    unfolding eq .
  note IH = Cons.IH [OF ok2]
  obtain k cs ps ds where "?s2 =
       ?s1\<lparr>examined := examined ?s1 @ take k (transactions b), db := db ?s1 @ cs,
            pending := ps, alerts := alerts ?s1 @ notices w ds\<rparr>"
    using process_transactions_frame [of w addr b "transactions b" ?s1] by blast
  then have f: "fetched ?s2 = fetched s @ [n]" by simp
  have x: "examined ?s2 = examined s @ txs_at w n"
    using process_transactions_ok(1) [OF ok1] b by (simp add: txs_at_def)
  have a: "alerts ?s2 = alerts s @ notices w (deposits_at w addr n)"
    using process_transactions_ok(2) [OF ok1] b by (simp add: deposits_at_def deposits_of_def)
  have d: "db ?s2 @ pending ?s2 = db s @ pending s @ deposits_at w addr n"
    using process_transactions_ok(3) [OF ok1] b by (simp add: deposits_at_def deposits_of_def)
  have p: "pending s = [] \<Longrightarrow> pending ?s2 = []"
    using process_transactions_ok(4) [OF ok1] by simp
  have "\<forall>m \<in> set (n # ns). isl (block_at w m) = False" using IH b by simp
  moreover have "fetched (snd (process_heights w addr ns ?s2)) = fetched s @ n # ns"
    using IH f by simp
  moreover have "examined (snd (process_heights w addr ns ?s2)) =
      examined s @ concat (map (txs_at w) (n # ns))"
    using IH x by simp
  moreover have "alerts (snd (process_heights w addr ns ?s2)) =
      alerts s @ notices w (concat (map (deposits_at w addr) (n # ns)))"
    using IH a by (simp add: notices_append)
  moreover have "db (snd (process_heights w addr ns ?s2)) @ pending (snd (process_heights w addr ns ?s2)) =
      db s @ pending s @ concat (map (deposits_at w addr) (n # ns))"
    using IH d by simp
  moreover have "pending s = [] \<longrightarrow> pending (snd (process_heights w addr ns ?s2)) = []"
    using IH p by simp
  ultimately show ?case unfolding eq by blast
qed

lemma process_heights_ok:
  assumes "fst (process_heights w addr ns s) = None"
  shows "\<forall>n \<in> set ns. isl (block_at w n) = False"
    and "fetched (snd (process_heights w addr ns s)) = fetched s @ ns"
    and "examined (snd (process_heights w addr ns s)) =
      examined s @ concat (map (txs_at w) ns)"
    and "alerts (snd (process_heights w addr ns s)) =
      alerts s @ notices w (concat (map (deposits_at w addr) ns))"
    and "db (snd (process_heights w addr ns s)) @ pending (snd (process_heights w addr ns s)) =
      db s @ pending s @ concat (map (deposits_at w addr) ns)"
    and "pending s = [] \<Longrightarrow> pending (snd (process_heights w addr ns s)) = []"
  using process_heights_ok_all [OF assms] by blast+

lemma process_heights_succeeds:
  "\<forall>n \<in> set ns. \<exists>b. block_at w n = Inr b \<Longrightarrow> \<forall>d. insert_ok w d \<Longrightarrow>
   fst (process_heights w addr ns s) = None"
proof (induction ns arbitrary: s)
  case Nil
  show ?case by simp
next
  case (Cons n ns)
  from Cons.prems obtain b where b: "block_at w n = Inr b" by auto
  have "fst (process_transactions w addr b (transactions b) (s\<lparr>fetched := fetched s @ [n]\<rparr>)) = None"
    using Cons.prems(2) by (intro process_transactions_succeeds) simp
  then show ?case using b Cons.IH Cons.prems by (simp add: split_beta)
qed


section \<open>One pass and many\<close>

lemma process_heights_cursor:
  "last_processed_block (snd (process_heights w addr ns s)) = last_processed_block s"
proof -
  obtain k xs cs ps ds where "snd (process_heights w addr ns s) =
     s\<lparr>fetched := fetched s @ take k ns, examined := examined s @ xs,
       db := db s @ cs, pending := ps, alerts := alerts s @ notices w ds\<rparr>"
    using process_heights_frame by blast
  then show ?thesis by simp
qed

lemma track_body_failed:
  assumes "fst (track_body w addr s) = Some e"
  shows "last_processed_block (snd (track_body w addr s)) = last_processed_block s"
proof (cases "latest_number w")
  case (Inl e')
  then show ?thesis by (simp add: track_body_def)
next
  case (Inr b)
  show ?thesis
  proof (cases "last_processed_block s < b")
    case False
    with Inr show ?thesis by (simp add: track_body_def)
  next
    case True
    let ?r = "process_heights w addr [last_processed_block s + 1..b] s"
    from assms Inr True have "fst ?r \<noteq> None"
      by (auto simp: track_body_def process_new_blocks_def split_beta split: option.splits)
    then have "snd (track_body w addr s) = snd ?r"
      using Inr True by (auto simp: track_body_def process_new_blocks_def split_beta)
    then show ?thesis by (simp add: process_heights_cursor)
  qed
qed

text \<open>A pass over a range that is not empty, in terms of the outer loop.\<close>

lemma track_body_range:
  assumes "latest_number w = Inr b" and "last_processed_block s < b"
  shows "fst (track_body w addr s) =
      fst (process_heights w addr [last_processed_block s + 1..b] s)"
    and "fst (track_body w addr s) = None \<Longrightarrow> snd (track_body w addr s) =
      (snd (process_heights w addr [last_processed_block s + 1..b] s))\<lparr>last_processed_block := b\<rparr>"
    and "fst (track_body w addr s) \<noteq> None \<Longrightarrow> snd (track_body w addr s) =
      snd (process_heights w addr [last_processed_block s + 1..b] s)"
  using assms
  by (cases "fst (process_heights w addr [last_processed_block s + 1..b] s)";
      simp add: track_body_def process_new_blocks_def split_beta)+

lemma track_body_done:
  assumes "latest_number w = Inr b" and "last_processed_block s < b"
    and "fst (track_body w addr s) = None"
  shows "last_processed_block (snd (track_body w addr s)) = b"
    and "fetched (snd (track_body w addr s)) = fetched s @ [last_processed_block s + 1..b]"
    and "examined (snd (track_body w addr s)) =
      examined s @ concat (map (txs_at w) [last_processed_block s + 1..b])"
    and "alerts (snd (track_body w addr s)) =
      alerts s @ notices w (concat (map (deposits_at w addr) [last_processed_block s + 1..b]))"
    and "db (snd (track_body w addr s)) @ pending (snd (track_body w addr s)) =
      db s @ pending s @ concat (map (deposits_at w addr) [last_processed_block s + 1..b])"
    and "pending s = [] \<Longrightarrow> pending (snd (track_body w addr s)) = []"
    and "\<forall>n \<in> set [last_processed_block s + 1..b]. isl (block_at w n) = False"
proof -
  let ?r = "process_heights w addr [last_processed_block s + 1..b] s"
  have ok: "fst ?r = None" using track_body_range(1) [OF assms(1,2)] assms(3) by simp
  have eq: "snd (track_body w addr s) = (snd ?r)\<lparr>last_processed_block := b\<rparr>"
    using assms by (rule track_body_range(2))
  show "last_processed_block (snd (track_body w addr s)) = b" by (simp add: eq)
  show "fetched (snd (track_body w addr s)) = fetched s @ [last_processed_block s + 1..b]"
    using process_heights_ok(2) [OF ok] by (simp add: eq)
  show "examined (snd (track_body w addr s)) =
      examined s @ concat (map (txs_at w) [last_processed_block s + 1..b])"
    using process_heights_ok(3) [OF ok] by (simp add: eq)
  show "alerts (snd (track_body w addr s)) =
      alerts s @ notices w (concat (map (deposits_at w addr) [last_processed_block s + 1..b]))"
    using process_heights_ok(4) [OF ok] by (simp add: eq)
  show "db (snd (track_body w addr s)) @ pending (snd (track_body w addr s)) =
      db s @ pending s @ concat (map (deposits_at w addr) [last_processed_block s + 1..b])"
    using process_heights_ok(5) [OF ok] by (simp add: eq)
  show "pending (snd (track_body w addr s)) = []" if "pending s = []"
    using process_heights_ok(6) [OF ok that] by (simp add: eq)
  show "\<forall>n \<in> set [last_processed_block s + 1..b]. isl (block_at w n) = False"
    using process_heights_ok(1) [OF ok] .
qed


text \<open>What a pass can change, however it ends.\<close>

lemma track_iteration_frame:
  "\<exists>c hs xs cs ps ds. track_iteration w addr s =
       s\<lparr>last_processed_block := c, fetched := fetched s @ hs, examined := examined s @ xs,
         db := db s @ cs, pending := ps, alerts := alerts s @ notices w ds\<rparr>
     \<and> last_processed_block s \<le> c \<and> (\<forall>h \<in> set hs. last_processed_block s < h)
     \<and> (\<forall>d \<in> set ds. insert_ok w d)"
proof -
  let ?c = "last_processed_block s"
  have idle: "s = s\<lparr>last_processed_block := ?c, fetched := fetched s @ [],
      examined := examined s @ [], db := db s @ [], pending := pending s,
      alerts := alerts s @ notices w []\<rparr>"
    by (simp add: notices_def)
  have still: ?thesis if "track_iteration w addr s = s"
  proof -
    have "track_iteration w addr s = s\<lparr>last_processed_block := ?c, fetched := fetched s @ [],
      examined := examined s @ [], db := db s @ [], pending := pending s,
      alerts := alerts s @ notices w []\<rparr>"
      using that idle by simp
    moreover have "\<forall>h \<in> set []. ?c < h" by simp
    moreover have "\<forall>d \<in> set []. insert_ok w d" by simp
    ultimately show ?thesis by (metis order_refl)
  qed
  show ?thesis
  proof (cases "latest_number w")
    case (Inl e)
    then have "track_iteration w addr s = s" by (simp add: track_iteration_def track_body_def)
    then show ?thesis by (rule still)
  next
    case (Inr b)
    show ?thesis
    proof (cases "?c < b")
      case False
      with Inr have "track_iteration w addr s = s"
        by (simp add: track_iteration_def track_body_def)
      then show ?thesis by (rule still)
    next
      case True
      let ?r = "process_heights w addr [?c + 1..b] s"
      obtain k xs cs ps ds where fr: "snd ?r =
         s\<lparr>fetched := fetched s @ take k [?c + 1..b], examined := examined s @ xs,
           db := db s @ cs, pending := ps, alerts := alerts s @ notices w ds\<rparr>"
        and ok: "\<forall>d \<in> set ds. insert_ok w d"
        using process_heights_frame by blast
      have above: "\<forall>h \<in> set (take k [?c + 1..b]). ?c < h"
        by (auto dest: in_set_takeD)
      show ?thesis
      proof (cases "fst (track_body w addr s)")
        case None
        then have "track_iteration w addr s = (snd ?r)\<lparr>last_processed_block := b\<rparr>"
          using track_body_range(2) [OF Inr True] by (simp add: track_iteration_def)
        then have "track_iteration w addr s =
          s\<lparr>last_processed_block := b, fetched := fetched s @ take k [?c + 1..b],
            examined := examined s @ xs, db := db s @ cs, pending := ps,
            alerts := alerts s @ notices w ds\<rparr>"
          using fr by simp
        with above ok True show ?thesis
          by (intro exI conjI) (assumption, simp, assumption, assumption)
      next
        case (Some e)
        then have "track_iteration w addr s = snd ?r"
          using track_body_range(3) [OF Inr True] by (simp add: track_iteration_def)
        then have "track_iteration w addr s =
          s\<lparr>last_processed_block := ?c, fetched := fetched s @ take k [?c + 1..b],
            examined := examined s @ xs, db := db s @ cs, pending := ps,
            alerts := alerts s @ notices w ds\<rparr>"
          using fr by simp
        with above ok show ?thesis
          by (intro exI conjI) (assumption, simp, assumption, assumption)
      qed
    qed
  qed
qed

lemma track_deposits_frame:
  "\<exists>hs cs. fetched (track_deposits addr ws s) = fetched s @ hs
     \<and> db (track_deposits addr ws s) = db s @ cs
     \<and> last_processed_block s \<le> last_processed_block (track_deposits addr ws s)
     \<and> (\<forall>h \<in> set hs. last_processed_block s < h)"
proof (induction ws arbitrary: s)
  case Nil
  show ?case by simp
next
  case (Cons w ws)
  let ?s1 = "track_iteration w addr s"
  obtain c hs xs cs ps ds where one: "?s1 =
       s\<lparr>last_processed_block := c, fetched := fetched s @ hs, examined := examined s @ xs,
         db := db s @ cs, pending := ps, alerts := alerts s @ notices w ds\<rparr>"
     and c: "last_processed_block s \<le> c" and hs: "\<forall>h \<in> set hs. last_processed_block s < h"
    using track_iteration_frame [of w addr s] by blast
  from one have f1: "fetched ?s1 = fetched s @ hs" and d1: "db ?s1 = db s @ cs"
    and c1: "last_processed_block ?s1 = c" by simp_all
  from Cons.IH [of ?s1] obtain hs' cs' where
    f2: "fetched (track_deposits addr ws ?s1) = fetched ?s1 @ hs'" and
    d2: "db (track_deposits addr ws ?s1) = db ?s1 @ cs'" and
    c2: "last_processed_block ?s1 \<le> last_processed_block (track_deposits addr ws ?s1)" and
    hs': "\<forall>h \<in> set hs'. last_processed_block ?s1 < h" by blast
  have "fetched (track_deposits addr (w # ws) s) = fetched s @ (hs @ hs')"
    using f1 f2 by simp
  moreover have "db (track_deposits addr (w # ws) s) = db s @ (cs @ cs')"
    using d1 d2 by simp
  moreover have "last_processed_block s \<le> last_processed_block (track_deposits addr (w # ws) s)"
    using c c1 c2 by simp
  moreover have "\<forall>h \<in> set (hs @ hs'). last_processed_block s < h"
    using hs hs' c c1 by auto
  ultimately show ?case by blast
qed


section \<open>Evaluation on the sample chain\<close>

lemma char_eq_char_of_iff: "c = char_of n \<longleftrightarrow> take_bit 8 (n::nat) = of_char c"
  using char_of_eq_iff [of n c] by auto

lemmas lower_eval = is_deposit_tx_def lower_def lower_char_def char_of_eq_iff char_eq_char_of_iff

lemma tx_a_matches: "is_deposit_tx deposit_contract tx_a"
  by (simp add: lower_eval deposit_contract_def tx_a_def)

lemma tx_b_matches: "is_deposit_tx deposit_contract tx_b"
  by (simp add: lower_eval deposit_contract_def tx_b_def)

lemma tx_create_no_match: "\<not> is_deposit_tx deposit_contract tx_create"
  by (simp add: is_deposit_tx_def tx_create_def)

lemma tx_other_no_match: "\<not> is_deposit_tx deposit_contract tx_other"
  by (simp add: lower_eval deposit_contract_def tx_other_def)

lemmas sample_matches = tx_a_matches tx_b_matches tx_create_no_match tx_other_no_match

lemma upto_100_105: "[100..105] = [100, 101, 102, 103, 104, 105::int]"
  by (simp add: upto_rec1)

lemmas run_eval = track_body_def process_new_blocks_def upto_100_105 chain_def sample_matches
  Let_def process_deposit_eq notices_def

lemma run_world_ok:
  "track_body world_ok deposit_contract state0 =
     (None, \<lparr> last_processed_block = 105,
              db = [build_deposit tx_a (chain 101), build_deposit tx_b (chain 103)],
              pending = [],
              alerts = [(build_deposit tx_a (chain 101), False),
                        (build_deposit tx_b (chain 103), False)],
              fetched = [100, 101, 102, 103, 104, 105],
              examined = [tx_a, tx_create, tx_b, tx_other] \<rparr>)"
  by (simp add: run_eval world_ok_def state0_def)

lemma run_world_block_missing:
  "track_body world_block_missing deposit_contract state0 =
     (Some RpcError, \<lparr> last_processed_block = 99,
              db = [build_deposit tx_a (chain 101), build_deposit tx_b (chain 103)],
              pending = [],
              alerts = [(build_deposit tx_a (chain 101), True),
                        (build_deposit tx_b (chain 103), True)],
              fetched = [100, 101, 102, 103, 104],
              examined = [tx_a, tx_create, tx_b, tx_other] \<rparr>)"
  by (simp add: run_eval world_block_missing_def state0_def)


lemma run_world_commit_down:
  "track_body world_commit_down deposit_contract state0 =
     (Some SqliteError, \<lparr> last_processed_block = 99, db = [],
              pending = [build_deposit tx_a (chain 101)], alerts = [],
              fetched = [100, 101], examined = [tx_a] \<rparr>)"
  by (simp add: run_eval world_commit_down_def state0_def)

lemma run_world_rpc_down:
  "track_body world_rpc_down deposit_contract state0 = (Some RpcError, state0)"
  by (simp add: track_body_def world_rpc_down_def)


text \<open>A retry after the commit of the first record failed: two rows for one notification.\<close>

lemma run_commit_retry:
  "track_deposits deposit_contract [world_commit_down, world_ok] state0 =
     \<lparr> last_processed_block = 105,
       db = [build_deposit tx_a (chain 101), build_deposit tx_a (chain 101),
             build_deposit tx_b (chain 103)],
       pending = [],
       alerts = [(build_deposit tx_a (chain 101), False), (build_deposit tx_b (chain 103), False)],
       fetched = [100, 101, 100, 101, 102, 103, 104, 105],
       examined = [tx_a, tx_a, tx_create, tx_b, tx_other] \<rparr>"
  by (simp add: track_iteration_def run_world_commit_down)
     (simp add: run_eval world_ok_def)


section \<open>Fee\<close>

text \<open>
  C3. The fee of the record built for a transaction is the integer product of the fields
  \<^verbatim>\<open>gas\<close> and \<^verbatim>\<open>gasPrice\<close> of the transaction; for gas 21000 and gas price 50 it is 1050000.
\<close>

theorem fee_is_gas_times_gasPrice:
  "fee (build_deposit t b) = tx_gas t * tx_gasPrice t
   \<and> fee (build_deposit (t\<lparr>tx_gas := 21000, tx_gasPrice := 50\<rparr>) b) = 1050000"
  by (simp add: build_deposit_def)

section \<open>The scan cursor\<close>

text \<open>
  C1. The constructor sets the cursor \<open>last_processed_block\<close> to the latest height minus
  1000. Over any number of passes of the loop the cursor never decreases. A pass that finds
  the latest height \<open>b\<close> above the cursor and ends without an exception leaves the cursor at
  \<open>b\<close>. A pass that ends with an exception, raised while polling or while processing,
  leaves the cursor as it was.
\<close>

theorem cursor_lifecycle:
  "(latest_number w = Inr h \<longrightarrow> init w s = Inr (s\<lparr>last_processed_block := h - 1000\<rparr>))
   \<and> last_processed_block s \<le> last_processed_block (track_deposits addr ws s)
   \<and> (latest_number w = Inr b \<and> last_processed_block s < b \<and> fst (track_body w addr s) = None
        \<longrightarrow> last_processed_block (track_iteration w addr s) = b)
   \<and> (fst (track_body w addr s) \<noteq> None
        \<longrightarrow> last_processed_block (track_iteration w addr s) = last_processed_block s)"
proof (intro conjI impI)
  assume "latest_number w = Inr h"
  then show "init w s = Inr (s\<lparr>last_processed_block := h - 1000\<rparr>)"
    by (simp add: init_def get_last_processed_block_def)
next
  show "last_processed_block s \<le> last_processed_block (track_deposits addr ws s)"
    using track_deposits_frame [of addr ws s] by blast
next
  assume "latest_number w = Inr b \<and> last_processed_block s < b \<and> fst (track_body w addr s) = None"
  then show "last_processed_block (track_iteration w addr s) = b"
    using track_body_done(1) [where w = w and b = b and s = s and addr = addr]
    by (simp add: track_iteration_def)
next
  assume "fst (track_body w addr s) \<noteq> None"
  then obtain e where "fst (track_body w addr s) = Some e" by blast
  then show "last_processed_block (track_iteration w addr s) = last_processed_block s"
    unfolding track_iteration_def by (rule track_body_failed)
qed

theorem cursor_lifecycle_witness:
  "latest_number world_ok = Inr 105
   \<and> init world_ok state0 = Inr (state0\<lparr>last_processed_block := 105 - 1000\<rparr>)
   \<and> last_processed_block state0
       \<le> last_processed_block (track_deposits deposit_contract [world_block_missing, world_ok] state0)
   \<and> last_processed_block state0 < 105
   \<and> fst (track_body world_ok deposit_contract state0) = None
   \<and> last_processed_block (track_iteration world_ok deposit_contract state0) = 105
   \<and> fst (track_body world_block_missing deposit_contract state0) \<noteq> None
   \<and> last_processed_block (track_iteration world_block_missing deposit_contract state0) =
       last_processed_block state0
   \<and> fst (track_body world_rpc_down deposit_contract state0) \<noteq> None
   \<and> last_processed_block (track_iteration world_rpc_down deposit_contract state0) =
       last_processed_block state0"
proof -
  have h5: "fst (track_body world_rpc_down deposit_contract state0) \<noteq> None"
    by (simp add: run_world_rpc_down)
  note down = cursor_lifecycle [of world_rpc_down 105 state0 deposit_contract "[]" 105]
  from down h5 have c5: "last_processed_block (track_iteration world_rpc_down deposit_contract state0) =
       last_processed_block state0" by blast
  have h1: "latest_number world_ok = Inr 105" by (simp add: world_ok_def)
  have h2: "last_processed_block state0 < 105" by (simp add: state0_def)
  have h3: "fst (track_body world_ok deposit_contract state0) = None"
    by (simp add: run_world_ok)
  have h4: "fst (track_body world_block_missing deposit_contract state0) \<noteq> None"
    by (simp add: run_world_block_missing)
  note ok = cursor_lifecycle [of world_ok 105 state0 deposit_contract
      "[world_block_missing, world_ok]" 105]
  note bad = cursor_lifecycle [of world_block_missing 105 state0 deposit_contract "[]" 105]
  from ok h1 have c1: "init world_ok state0 = Inr (state0\<lparr>last_processed_block := 105 - 1000\<rparr>)"
    by blast
  from ok have c2: "last_processed_block state0
       \<le> last_processed_block (track_deposits deposit_contract [world_block_missing, world_ok] state0)"
    by blast
  from ok h1 h2 h3 have c3: "last_processed_block (track_iteration world_ok deposit_contract state0) = 105"
    by blast
  from bad h4 have c4: "last_processed_block (track_iteration world_block_missing deposit_contract state0) =
       last_processed_block state0" by blast
  from h1 h2 h3 h4 h5 c1 c2 c3 c4 c5 show ?thesis by blast
qed


section \<open>Order of processing\<close>




section \<open>The public key\<close>

lemma pubkey_slice: "pubkey (build_deposit t b) = take 96 (drop 2 (tx_input t))"
  by (simp add: build_deposit_def slice_def)

lemma tx_a_pubkey:
  "pubkey (build_deposit tx_a (chain 101)) = ''22895118'' @ replicate 88 (CHR ''c'')"
  by (simp add: pubkey_slice tx_a_def numeral_eq_Suc)

lemma tx_b_pubkey: "pubkey (build_deposit tx_b (chain 103)) = ''1234''"
  by (simp add: pubkey_slice tx_b_def)

text \<open>
  C4. The claim asks for the key to be the 96 digits that follow the 4-byte selector. The
  slice of the code starts at character 2, which skips the prefix \<^verbatim>\<open>0x\<close> and not the
  selector: on \<open>tx_a\<close>, whose call data is the prefix, the selector \<^verbatim>\<open>22895118\<close> and 96
  digits \<^verbatim>\<open>c\<close>, the key stored is the selector followed by 88 of the digits, and differs
  from the 96 digits after the selector.
\<close>

theorem pubkey_includes_selector:
  "is_deposit_tx deposit_contract tx_a
   \<and> tx_input tx_a = ''0x'' @ ''22895118'' @ replicate 96 (CHR ''c'')
   \<and> pubkey_after_selector (tx_input tx_a) = replicate 96 (CHR ''c'')
   \<and> pubkey (build_deposit tx_a (chain 101)) = ''22895118'' @ replicate 88 (CHR ''c'')
   \<and> pubkey (build_deposit tx_a (chain 101)) \<noteq> pubkey_after_selector (tx_input tx_a)"
proof -
  have i: "tx_input tx_a = ''0x'' @ ''22895118'' @ replicate 96 (CHR ''c'')"
    by (simp add: tx_a_def)
  have a: "pubkey_after_selector (tx_input tx_a) = replicate 96 (CHR ''c'')"
    by (simp add: pubkey_after_selector_def slice_def tx_a_def)
  have b: "pubkey (build_deposit tx_a (chain 101)) \<noteq> replicate 96 (CHR ''c'')"
    by (simp add: tx_a_pubkey numeral_eq_Suc)
  from i a b tx_a_pubkey tx_a_matches show ?thesis by simp
qed

text \<open>
  C5, as the code has it. A call data shorter than 98 characters raises nothing: the key is
  whatever follows the first two characters, shorter than 96, and \<^verbatim>\<open>process_deposit\<close> fails
  only when the insertion does.
\<close>

theorem short_input_is_truncated:
  assumes "length (tx_input t) < 98"
  shows "pubkey (build_deposit t b) = drop 2 (tx_input t)
    \<and> length (pubkey (build_deposit t b)) < 96
    \<and> (fst (process_deposit w t b s) = None) = insert_ok w (build_deposit t b)
    \<and> fst (process_deposit w t b s) \<in> {None, Some SqliteError}"
  using assms by (auto simp: pubkey_slice process_deposit_eq insert_ok_def)

theorem short_input_is_truncated_witness:
  "length (tx_input tx_b) < 98
   \<and> pubkey (build_deposit tx_b (chain 103)) = drop 2 (tx_input tx_b)
   \<and> length (pubkey (build_deposit tx_b (chain 103))) < 96
   \<and> (fst (process_deposit world_ok tx_b (chain 103) state0) = None) =
       insert_ok world_ok (build_deposit tx_b (chain 103))"
proof -
  have h: "length (tx_input tx_b) < 98" by (simp add: tx_b_def)
  from short_input_is_truncated [OF h, where b = "chain 103" and w = world_ok and s = state0] h
  show ?thesis by blast
qed

theorem short_input_is_truncated_counterexample:
  "is_deposit_tx deposit_contract tx_b
   \<and> length (tx_input tx_b) = 6
   \<and> process_deposit world_ok tx_b (chain 103) state0 =
       (None, state0\<lparr>db := [build_deposit tx_b (chain 103)],
                      alerts := [(build_deposit tx_b (chain 103), False)]\<rparr>)
   \<and> pubkey (build_deposit tx_b (chain 103)) = ''1234''"
proof -
  have "length (tx_input tx_b) = 6" by (simp add: tx_b_def)
  moreover have "process_deposit world_ok tx_b (chain 103) state0 =
       (None, state0\<lparr>db := [build_deposit tx_b (chain 103)],
                      alerts := [(build_deposit tx_b (chain 103), False)]\<rparr>)"
    by (simp add: process_deposit_eq notices_def world_ok_def state0_def)
  ultimately show ?thesis using tx_b_matches tx_b_pubkey by simp
qed

text \<open>
  C10. Whatever string the call data is, building the record raises nothing: the key is the
  slice, of at most 96 characters, and when the insertion and its commit succeed the record
  is written to the table and its notification is requested, like any other.
\<close>

theorem decoding_is_total:
  assumes "insert_ok w (build_deposit t b)"
  shows "process_deposit w t b s =
      (None, s\<lparr>db := db s @ pending s @ [build_deposit t b], pending := [],
               alerts := alerts s @ [(build_deposit t b, post_ok w (build_deposit t b))]\<rparr>)
    \<and> pubkey (build_deposit t b) = slice 2 98 (tx_input t)
    \<and> length (pubkey (build_deposit t b)) \<le> 96
    \<and> build_deposit (t\<lparr>tx_input := inp\<rparr>) b = (build_deposit t b)\<lparr>pubkey := slice 2 98 inp\<rparr>"
  using assms by (simp add: process_deposit_ok notices_def) (simp add: build_deposit_def slice_def)

theorem decoding_is_total_witness:
  "insert_ok world_ok (build_deposit tx_b (chain 103))
   \<and> process_deposit world_ok tx_b (chain 103) state0 =
      (None, state0\<lparr>db := db state0 @ pending state0 @ [build_deposit tx_b (chain 103)],
          pending := [],
          alerts := alerts state0 @
            [(build_deposit tx_b (chain 103), post_ok world_ok (build_deposit tx_b (chain 103)))]\<rparr>)
   \<and> length (pubkey (build_deposit tx_b (chain 103))) \<le> 96"
proof -
  have h: "insert_ok world_ok (build_deposit tx_b (chain 103))"
    by (simp add: insert_ok_def world_ok_def)
  from decoding_is_total [OF h, where s = state0] h show ?thesis by blast
qed


section \<open>The filter\<close>

lemma of_char_lower_char:
  "(of_char (lower_char c) :: nat) = (if is_upper c then of_char c + 32 else of_char c)"
  by (simp add: lower_char_def is_upper_def Let_def)

lemma of_char_nat_eq_iff: "(of_char c :: nat) = of_char d \<longleftrightarrow> c = d"
  by simp

lemma lower_char_eq_iff: "lower_char c = lower_char d \<longleftrightarrow> same_letter c d"
proof -
  have "lower_char c = lower_char d \<longleftrightarrow>
      (of_char (lower_char c) :: nat) = of_char (lower_char d)"
    by (simp only: of_char_nat_eq_iff)
  also have "\<dots> \<longleftrightarrow> same_letter c d"
    unfolding of_char_lower_char same_letter_def is_upper_def
    by (auto simp: of_char_nat_eq_iff)
  finally show ?thesis .
qed

lemma lower_eq_iff: "lower a = lower b \<longleftrightarrow> equal_ignoring_case a b"
proof -
  have "lower a = lower b \<longleftrightarrow> list_all2 (=) (map lower_char a) (map lower_char b)"
    by (simp add: lower_def list.rel_eq)
  also have "\<dots> \<longleftrightarrow> list_all2 (\<lambda>c d. lower_char c = lower_char d) a b"
    by (simp add: list.rel_map)
  finally show ?thesis by (simp add: equal_ignoring_case_def lower_char_eq_iff)
qed

text \<open>
  C6. The filter accepts a transaction exactly when it has a destination (one that is
  neither \<^verbatim>\<open>None\<close> nor the empty string) and the destination equals the configured
  address under case-insensitive comparison. For a configured address that is not the
  empty string this is: exactly when the destination equals the address under
  case-insensitive comparison. A transaction without destination is never accepted.
\<close>

theorem filter_is_case_insensitive:
  "is_deposit_tx addr t = (\<exists>a. tx_to t = Some a \<and> a \<noteq> [] \<and> equal_ignoring_case a addr)
   \<and> (addr \<noteq> [] \<longrightarrow>
        is_deposit_tx addr t = (\<exists>a. tx_to t = Some a \<and> equal_ignoring_case a addr))
   \<and> \<not> is_deposit_tx addr (t\<lparr>tx_to := None\<rparr>)
   \<and> \<not> is_deposit_tx addr (t\<lparr>tx_to := Some []\<rparr>)"
proof -
  have "addr \<noteq> [] \<Longrightarrow> equal_ignoring_case a addr \<Longrightarrow> a \<noteq> []" for a
    by (auto simp: equal_ignoring_case_def)
  then show ?thesis
    by (cases "tx_to t") (auto simp: is_deposit_tx_def lower_eq_iff)
qed

theorem filter_is_case_insensitive_witness:
  "deposit_contract \<noteq> []
   \<and> is_deposit_tx deposit_contract tx_a
   \<and> tx_to tx_a = Some ''0x00000000219AB540356CBB839CBE05303D7705FA''
   \<and> equal_ignoring_case ''0x00000000219AB540356CBB839CBE05303D7705FA'' deposit_contract
   \<and> \<not> equal_ignoring_case ''0x000000000000000000000000000000000000dEaD'' deposit_contract
   \<and> \<not> is_deposit_tx deposit_contract (tx_a\<lparr>tx_to := None\<rparr>)"
proof -
  have h: "deposit_contract \<noteq> []" by (simp add: deposit_contract_def)
  have th: "is_deposit_tx deposit_contract t =
      (\<exists>a. tx_to t = Some a \<and> equal_ignoring_case a deposit_contract)
    \<and> \<not> is_deposit_tx deposit_contract (t\<lparr>tx_to := None\<rparr>)" for t
    using filter_is_case_insensitive [of deposit_contract t] h by blast
  have to_a: "tx_to tx_a = Some ''0x00000000219AB540356CBB839CBE05303D7705FA''"
    by (simp add: tx_a_def)
  have to_o: "tx_to tx_other = Some ''0x000000000000000000000000000000000000dEaD''"
    by (simp add: tx_other_def)
  from th [of tx_a] tx_a_matches to_a
  have c1: "equal_ignoring_case ''0x00000000219AB540356CBB839CBE05303D7705FA'' deposit_contract"
    by simp
  from th [of tx_other] tx_other_no_match to_o
  have c2: "\<not> equal_ignoring_case ''0x000000000000000000000000000000000000dEaD'' deposit_contract"
    by simp
  from th [of tx_a] have c3: "\<not> is_deposit_tx deposit_contract (tx_a\<lparr>tx_to := None\<rparr>)"
    by blast
  from h tx_a_matches to_a c1 c2 c3 show ?thesis by blast
qed


section \<open>Notification and persistence\<close>

text \<open>
  Whether the HTTP requests succeed has no effect on the exception a loop ends with nor on
  any part of the state but the list of notifications.
\<close>

lemma process_transactions_post_ok:
  assumes "last_processed_block s' = last_processed_block s" and "db s' = db s"
    and "pending s' = pending s" and "fetched s' = fetched s" and "examined s' = examined s"
  shows "fst (process_transactions (w\<lparr>post_ok := p\<rparr>) addr b ts s') =
           fst (process_transactions w addr b ts s)
    \<and> last_processed_block (snd (process_transactions (w\<lparr>post_ok := p\<rparr>) addr b ts s')) =
        last_processed_block (snd (process_transactions w addr b ts s))
    \<and> db (snd (process_transactions (w\<lparr>post_ok := p\<rparr>) addr b ts s')) =
        db (snd (process_transactions w addr b ts s))
    \<and> pending (snd (process_transactions (w\<lparr>post_ok := p\<rparr>) addr b ts s')) =
        pending (snd (process_transactions w addr b ts s))
    \<and> fetched (snd (process_transactions (w\<lparr>post_ok := p\<rparr>) addr b ts s')) =
        fetched (snd (process_transactions w addr b ts s))
    \<and> examined (snd (process_transactions (w\<lparr>post_ok := p\<rparr>) addr b ts s')) =
        examined (snd (process_transactions w addr b ts s))"
  using assms
proof (induction ts arbitrary: s s')
  case Nil
  then show ?case by simp
next
  case (Cons t ts)
  let ?d = "build_deposit t b"
  let ?w' = "w\<lparr>post_ok := p\<rparr>"
  have same: "insert_ok ?w' ?d = insert_ok w ?d" "execute_ok ?w' ?d = execute_ok w ?d"
    by (simp_all add: insert_ok_def)
  show ?case
  proof (cases "is_deposit_tx addr t \<and> insert_ok w ?d")
    case True
    let ?s2 = "s\<lparr>examined := examined s @ [t], db := db s @ pending s @ [?d], pending := [],
        alerts := alerts s @ notices w [?d]\<rparr>"
    let ?s2' = "s'\<lparr>examined := examined s' @ [t], db := db s' @ pending s' @ [?d], pending := [],
        alerts := alerts s' @ notices ?w' [?d]\<rparr>"
    have l: "process_transactions ?w' addr b (t # ts) s' = process_transactions ?w' addr b ts ?s2'"
      using True same by (simp add: process_deposit_ok Let_def)
    have r: "process_transactions w addr b (t # ts) s = process_transactions w addr b ts ?s2"
      using True by (simp add: process_deposit_ok Let_def)
    show ?thesis unfolding l r by (rule Cons.IH) (simp_all add: Cons.prems)
  next
    case False
    show ?thesis
    proof (cases "is_deposit_tx addr t")
      case True
      with False have "\<not> insert_ok w ?d" "\<not> insert_ok ?w' ?d" using same by simp_all
      then show ?thesis using True Cons.prems same
        by (simp add: process_deposit_failed Let_def)
    next
      case no: False
      let ?s1 = "s\<lparr>examined := examined s @ [t]\<rparr>"
      let ?s1' = "s'\<lparr>examined := examined s' @ [t]\<rparr>"
      have l: "process_transactions ?w' addr b (t # ts) s' = process_transactions ?w' addr b ts ?s1'"
        using no by (simp add: Let_def)
      have r: "process_transactions w addr b (t # ts) s = process_transactions w addr b ts ?s1"
        using no by (simp add: Let_def)
      show ?thesis unfolding l r by (rule Cons.IH) (simp_all add: Cons.prems)
    qed
  qed
qed

lemma process_heights_post_ok:
  assumes "last_processed_block s' = last_processed_block s" and "db s' = db s"
    and "pending s' = pending s" and "fetched s' = fetched s" and "examined s' = examined s"
  shows "fst (process_heights (w\<lparr>post_ok := p\<rparr>) addr ns s') =
           fst (process_heights w addr ns s)
    \<and> last_processed_block (snd (process_heights (w\<lparr>post_ok := p\<rparr>) addr ns s')) =
        last_processed_block (snd (process_heights w addr ns s))
    \<and> db (snd (process_heights (w\<lparr>post_ok := p\<rparr>) addr ns s')) =
        db (snd (process_heights w addr ns s))
    \<and> pending (snd (process_heights (w\<lparr>post_ok := p\<rparr>) addr ns s')) =
        pending (snd (process_heights w addr ns s))
    \<and> fetched (snd (process_heights (w\<lparr>post_ok := p\<rparr>) addr ns s')) =
        fetched (snd (process_heights w addr ns s))
    \<and> examined (snd (process_heights (w\<lparr>post_ok := p\<rparr>) addr ns s')) =
        examined (snd (process_heights w addr ns s))"
  using assms
proof (induction ns arbitrary: s s')
  case Nil
  then show ?case by simp
next
  case (Cons n ns)
  let ?w' = "w\<lparr>post_ok := p\<rparr>"
  let ?s1 = "s\<lparr>fetched := fetched s @ [n]\<rparr>"
  let ?s1' = "s'\<lparr>fetched := fetched s' @ [n]\<rparr>"
  show ?case
  proof (cases "block_at w n")
    case (Inl e)
    then show ?thesis using Cons.prems by simp
  next
    case (Inr b)
    let ?r = "process_transactions w addr b (transactions b) ?s1"
    let ?r' = "process_transactions ?w' addr b (transactions b) ?s1'"
    have inner: "fst ?r' = fst ?r
      \<and> last_processed_block (snd ?r') = last_processed_block (snd ?r)
      \<and> db (snd ?r') = db (snd ?r) \<and> pending (snd ?r') = pending (snd ?r)
      \<and> fetched (snd ?r') = fetched (snd ?r)
      \<and> examined (snd ?r') = examined (snd ?r)"
      by (rule process_transactions_post_ok) (simp_all add: Cons.prems)
    show ?thesis
    proof (cases "fst ?r")
      case (Some e)
      then have "process_heights w addr (n # ns) s = (Some e, snd ?r)"
        and "process_heights ?w' addr (n # ns) s' = (Some e, snd ?r')"
        using Inr inner by (simp_all add: split_beta)
      then show ?thesis using inner by simp
    next
      case None
      then have r: "process_heights w addr (n # ns) s = process_heights w addr ns (snd ?r)"
        and l: "process_heights ?w' addr (n # ns) s' = process_heights ?w' addr ns (snd ?r')"
        using Inr inner by (simp_all add: split_beta)
      show ?thesis unfolding l r by (rule Cons.IH) (simp_all add: inner)
    qed
  qed
qed

lemma track_body_post_ok:
  "fst (track_body (w\<lparr>post_ok := p\<rparr>) addr s) = fst (track_body w addr s)
   \<and> last_processed_block (snd (track_body (w\<lparr>post_ok := p\<rparr>) addr s)) =
       last_processed_block (snd (track_body w addr s))
   \<and> db (snd (track_body (w\<lparr>post_ok := p\<rparr>) addr s)) = db (snd (track_body w addr s))
   \<and> pending (snd (track_body (w\<lparr>post_ok := p\<rparr>) addr s)) =
       pending (snd (track_body w addr s))"
proof (cases "latest_number w")
  case (Inl e)
  then show ?thesis by (simp add: track_body_def)
next
  case (Inr b)
  show ?thesis
  proof (cases "last_processed_block s < b")
    case False
    with Inr show ?thesis by (simp add: track_body_def)
  next
    case True
    let ?ns = "[last_processed_block s + 1..b]"
    have "fst (process_heights (w\<lparr>post_ok := p\<rparr>) addr ?ns s) = fst (process_heights w addr ?ns s)
      \<and> last_processed_block (snd (process_heights (w\<lparr>post_ok := p\<rparr>) addr ?ns s)) =
          last_processed_block (snd (process_heights w addr ?ns s))
      \<and> db (snd (process_heights (w\<lparr>post_ok := p\<rparr>) addr ?ns s)) =
          db (snd (process_heights w addr ?ns s))
      \<and> pending (snd (process_heights (w\<lparr>post_ok := p\<rparr>) addr ?ns s)) =
          pending (snd (process_heights w addr ?ns s))"
      using process_heights_post_ok [where s = s and s' = s and w = w and p = p
          and addr = addr and ns = ?ns] by simp
    then show ?thesis using Inr True
      by (cases "fst (process_heights w addr ?ns s)")
         (simp_all add: track_body_def process_new_blocks_def split_beta)
  qed
qed

text \<open>
  C7. When the insertion of a deposit and its commit succeed and its HTTP request fails,
  \<^verbatim>\<open>process_deposit\<close> returns normally, so the loops go on; the record is in the table and
  stays there through every later pass; and the cursor is untouched. For a whole pass, the
  exception it ends with, the cursor, the table and the pending rows are the same whatever
  the outcome of the HTTP requests.
\<close>

theorem notification_failure_is_harmless:
  assumes "insert_ok w (build_deposit t b)" and "\<not> post_ok w (build_deposit t b)"
  shows "fst (process_deposit w t b s) = None
    \<and> db (snd (process_deposit w t b s)) = db s @ pending s @ [build_deposit t b]
    \<and> last_processed_block (snd (process_deposit w t b s)) = last_processed_block s
    \<and> build_deposit t b \<in> set (db (track_deposits addr ws (snd (process_deposit w t b s))))
    \<and> fst (track_body (w'\<lparr>post_ok := p\<rparr>) addr s) = fst (track_body w' addr s)
    \<and> last_processed_block (track_iteration (w'\<lparr>post_ok := p\<rparr>) addr s) =
        last_processed_block (track_iteration w' addr s)
    \<and> db (track_iteration (w'\<lparr>post_ok := p\<rparr>) addr s) = db (track_iteration w' addr s)
    \<and> pending (track_iteration (w'\<lparr>post_ok := p\<rparr>) addr s) =
        pending (track_iteration w' addr s)"
proof -
  let ?d = "build_deposit t b"
  let ?s1 = "snd (process_deposit w t b s)"
  have one: "process_deposit w t b s =
      (None, s\<lparr>db := db s @ pending s @ [?d], pending := [],
               alerts := alerts s @ notices w [?d]\<rparr>)"
    using assms(1) by (rule process_deposit_ok)
  have d1: "db ?s1 = db s @ pending s @ [?d]" by (simp add: one)
  obtain hs cs where "db (track_deposits addr ws ?s1) = db ?s1 @ cs"
    using track_deposits_frame [of addr ws ?s1] by blast
  then have later: "?d \<in> set (db (track_deposits addr ws ?s1))"
    using d1 by simp
  have "fst (process_deposit w t b s) = None" by (simp add: one)
  moreover have "last_processed_block ?s1 = last_processed_block s" by (simp add: one)
  ultimately show ?thesis
    using d1 later track_body_post_ok [where w = w' and p = p and addr = addr and s = s]
    by (simp add: track_iteration_def)
qed

theorem notification_failure_is_harmless_witness:
  "insert_ok world_ok (build_deposit tx_a (chain 101))
   \<and> \<not> post_ok world_ok (build_deposit tx_a (chain 101))
   \<and> fst (process_deposit world_ok tx_a (chain 101) state0) = None
   \<and> db (snd (process_deposit world_ok tx_a (chain 101) state0)) =
       db state0 @ pending state0 @ [build_deposit tx_a (chain 101)]
   \<and> build_deposit tx_a (chain 101) \<in> set (db (track_deposits deposit_contract [world_ok]
         (snd (process_deposit world_ok tx_a (chain 101) state0))))
   \<and> last_processed_block (track_iteration (world_ok\<lparr>post_ok := \<lambda>d. True\<rparr>) deposit_contract state0) =
       last_processed_block (track_iteration world_ok deposit_contract state0)
   \<and> db (track_iteration (world_ok\<lparr>post_ok := \<lambda>d. True\<rparr>) deposit_contract state0) =
       db (track_iteration world_ok deposit_contract state0)"
proof -
  have h1: "insert_ok world_ok (build_deposit tx_a (chain 101))"
    by (simp add: insert_ok_def world_ok_def)
  have h2: "\<not> post_ok world_ok (build_deposit tx_a (chain 101))" by (simp add: world_ok_def)
  from notification_failure_is_harmless [OF h1 h2, where s = state0 and addr = deposit_contract
      and ws = "[world_ok]" and w' = world_ok and p = "\<lambda>d. True"] h1 h2
  show ?thesis by blast
qed




section \<open>Uniqueness and order of the stored records\<close>







end
